theory Spec2Isabelle
  imports Complex_Main
begin

section \<open>Noisy-channel spelling correction: the data model\<close>

text \<open>
  The development embeds \<^verbatim>\<open>src/spelling_correction.py\<close> (class
  \<^verbatim>\<open>SpellingCorrector\<close>). A Python \<^verbatim>\<open>str\<close> is the list of its code points, each a
  natural number, so \<open>length\<close> counts what Python's \<^verbatim>\<open>len\<close> counts. A one-character
  Python string (the result of \<^verbatim>\<open>s[i]\<close>) is the singleton list \<open>[c]\<close> wherever it is
  used as a dictionary key. \<open>str\<close> writes a literal of ASCII characters as such a list.
\<close>

type_synonym ustring = "nat list"

definition str :: "string \<Rightarrow> ustring" where
  "str s = map of_char s"

text \<open>
  The exceptions that can leave the code. \<open>SystemExit\<close> carries the status the
  built-in \<^verbatim>\<open>exit\<close> was called with; \<open>CsvError\<close> is \<^verbatim>\<open>csv.Error\<close>.
  \<open>DataLoadError\<close> is the exception the specification names for a failed
  construction; no statement of the source raises it.
\<close>

datatype exn =
    SystemExit int
  | OSError
  | UnicodeDecodeError
  | CsvError
  | KeyError
  | ValueError
  | TypeError
  | ZeroDivisionError
  | OverflowError
  | IndexError
  | DataLoadError

text \<open>
  A float produced by the scoring code is either \<^verbatim>\<open>-float('inf')\<close> or the result of
  \<^verbatim>\<open>math.log\<close>. A finite one is modelled by the real number it approximates: the
  rounding of the last bit is not part of the model, so two scores are compared as the
  reals they approximate.
\<close>

datatype pyfloat = NegInf | Fin real

fun float_add :: "pyfloat \<Rightarrow> pyfloat \<Rightarrow> pyfloat" where
  "float_add (Fin x) (Fin y) = Fin (x + y)"
| "float_add _ _ = NegInf"

fun float_gt :: "pyfloat \<Rightarrow> pyfloat \<Rightarrow> bool" where
  "float_gt (Fin x) (Fin y) = (x > y)"
| "float_gt (Fin x) NegInf = True"
| "float_gt NegInf _ = False"

text \<open>
  \<^verbatim>\<open>math.log(a / b)\<close> on two Python ints. The true division raises
  \<^verbatim>\<open>ZeroDivisionError\<close> when \<open>b\<close> is zero; otherwise it rounds the exact quotient to
  the nearest double, and raises \<^verbatim>\<open>OverflowError\<close> when that is beyond the largest
  double, which is from \<open>2 ^ 1024 - 2 ^ 970\<close> on. \<^verbatim>\<open>math.log\<close> raises
  \<^verbatim>\<open>ValueError\<close> on a double that is not positive: a quotient that is negative or
  zero, or a positive one that rounds to \<^verbatim>\<open>0.0\<close>, which is up to \<open>1 / 2 ^ 1075\<close>.
\<close>

definition log_div :: "int \<Rightarrow> int \<Rightarrow> exn + pyfloat" where
  "log_div a b =
     (if b = 0 then Inl ZeroDivisionError
      else
        (let q = real_of_int a / real_of_int b in
         if \<bar>q\<bar> \<ge> 2 ^ 1024 - 2 ^ 970 then Inl OverflowError
         else if q \<le> 1 / 2 ^ 1075 then Inl ValueError
         else Inr (Fin (ln q))))"

text \<open>\<^verbatim>\<open>d.get(k, default)\<close> on a dictionary.\<close>

definition dict_get :: "('k \<rightharpoonup> 'v) \<Rightarrow> 'k \<Rightarrow> 'v \<Rightarrow> 'v" where
  "dict_get d k dflt = (case d k of None \<Rightarrow> dflt | Some v \<Rightarrow> v)"

text \<open>
  The attributes of a \<^verbatim>\<open>SpellingCorrector\<close> object, as \<^verbatim>\<open>__init__\<close> sets them.
  \<^verbatim>\<open>self.alphabet\<close> is the same literal for every object and is the constant
  \<open>alphabet\<close> below.
\<close>

record corrector =
  unigram_counts :: "ustring \<rightharpoonup> int"
  bigram_counts :: "ustring \<rightharpoonup> int"
  sub_counts :: "ustring \<times> ustring \<rightharpoonup> int"
  del_counts :: "ustring \<times> ustring \<rightharpoonup> int"
  add_counts :: "ustring \<times> ustring \<rightharpoonup> int"
  vocab :: "ustring \<rightharpoonup> int"
  vocabulary :: "ustring set"
  total_word_count :: int
  total_unigram_count :: int
  total_bigram_count :: int

definition alphabet :: ustring where
  "alphabet = str ''abcdefghijklmnopqrstuvwxyz''"

section \<open>Candidate generation\<close>

text \<open>
  \<^verbatim>\<open>_generate_candidates\<close>: every split of the word, the four lists of edits built from
  the splits, and the members of their union that are in the vocabulary.
  \<^verbatim>\<open>R[1:]\<close> is \<open>drop 1 R\<close>; \<^verbatim>\<open>R[0]\<close> and \<^verbatim>\<open>R[1]\<close> are read only under the guard
  \<^verbatim>\<open>len(R) > 1\<close>.
\<close>

definition splits :: "ustring \<Rightarrow> (ustring \<times> ustring) list" where
  "splits word = map (\<lambda>i. (take i word, drop i word)) [0..<length word + 1]"

definition deletes :: "ustring \<Rightarrow> ustring list" where
  "deletes word = [L @ drop 1 R. (L, R) \<leftarrow> splits word, R \<noteq> []]"

definition transposes :: "ustring \<Rightarrow> ustring list" where
  "transposes word =
     [L @ [R ! 1] @ [R ! 0] @ drop 2 R. (L, R) \<leftarrow> splits word, length R > 1]"

definition replaces :: "ustring \<Rightarrow> ustring list" where
  "replaces word = [L @ [c] @ drop 1 R. (L, R) \<leftarrow> splits word, R \<noteq> [], c \<leftarrow> alphabet]"

definition inserts :: "ustring \<Rightarrow> ustring list" where
  "inserts word = [L @ [c] @ R. (L, R) \<leftarrow> splits word, c \<leftarrow> alphabet]"

definition all_edits :: "ustring \<Rightarrow> ustring set" where
  "all_edits word = set (deletes word @ transposes word @ replaces word @ inserts word)"

definition generate_candidates :: "corrector \<Rightarrow> ustring \<Rightarrow> ustring set" where
  "generate_candidates st word = {w \<in> all_edits word. w \<in> vocabulary st}"

text \<open>
  The specification's side of candidate generation: one primitive edit of a word.
  A substitution writes any letter of the alphabet over one character, an insertion puts
  any letter of the alphabet between two characters or at either end.
\<close>

inductive edit1 :: "ustring \<Rightarrow> ustring \<Rightarrow> bool" where
  deletion: "edit1 (xs @ a # ys) (xs @ ys)"
| transposition: "edit1 (xs @ a # b # ys) (xs @ b # a # ys)"
| substitution: "c \<in> set alphabet \<Longrightarrow> edit1 (xs @ a # ys) (xs @ c # ys)"
| insertion: "c \<in> set alphabet \<Longrightarrow> edit1 (xs @ ys) (xs @ c # ys)"

section \<open>Strings\<close>

text \<open>
  \<^verbatim>\<open>str.lower()\<close> puts together, position by position, the lower-case mapping of each
  character. For an ASCII character (below 128) the mapping is the character itself,
  moved 32 code points up when it is one of \<^verbatim>\<open>A\<close> to \<^verbatim>\<open>Z\<close> (65 to 90). For any other
  character it is what Unicode's tables say, one to three code points that can depend on
  the characters around it; the tables are the parameter \<open>tbl\<close>, which is given the
  string and the position.
\<close>

definition is_ascii_upper :: "nat \<Rightarrow> bool" where
  "is_ascii_upper c = (65 \<le> c \<and> c \<le> 90)"

definition ascii_lower :: "nat \<Rightarrow> nat" where
  "ascii_lower c = (if is_ascii_upper c then c + 32 else c)"

definition str_lower :: "(ustring \<Rightarrow> nat \<Rightarrow> ustring) \<Rightarrow> ustring \<Rightarrow> ustring" where
  "str_lower tbl s =
     concat (map (\<lambda>i. if s ! i < 128 then [ascii_lower (s ! i)] else tbl s i) [0..<length s])"

text \<open>
  \<^verbatim>\<open>s[i]\<close>: a negative index counts from the end, an index out of range raises
  \<^verbatim>\<open>IndexError\<close>. \<^verbatim>\<open>s[i:j]\<close> never raises: both bounds are clipped to the string.
\<close>

definition getitem :: "ustring \<Rightarrow> int \<Rightarrow> exn + nat" where
  "getitem s i =
     (let n = int (length s); j = (if i < 0 then n + i else i)
      in if 0 \<le> j \<and> j < n then Inr (s ! nat j) else Inl IndexError)"

definition slice :: "ustring \<Rightarrow> int \<Rightarrow> int \<Rightarrow> ustring" where
  "slice s i j =
     (let n = int (length s);
          lo = (if i < 0 then max (n + i) 0 else min i n);
          hi = (if j < 0 then max (n + j) 0 else min j n)
      in take (nat (hi - lo)) (drop (nat lo) s))"

section \<open>The prior and the channel model\<close>

text \<open>\<^verbatim>\<open>_log_prior_prob\<close>.\<close>

definition log_prior_prob :: "corrector \<Rightarrow> ustring \<Rightarrow> exn + pyfloat" where
  "log_prior_prob st word =
     (let count = dict_get (vocab st) word 0
      in log_div (count + 1) (total_word_count st + int (card (vocabulary st))))"

text \<open>
  The body of the deletion loop of \<^verbatim>\<open>_log_channel_prob\<close> at the index \<open>i\<close> where the
  loop returns; \<open>candidate\<close> is the candidate with the boundary marker in front.
\<close>

definition deletion_prob :: "corrector \<Rightarrow> ustring \<Rightarrow> nat \<Rightarrow> exn + pyfloat" where
  "deletion_prob st candidate i =
     (case getitem candidate (int i - 1) of
        Inl e \<Rightarrow> Inl e
      | Inr prefix \<Rightarrow>
          (case getitem candidate (int i) of
             Inl e \<Rightarrow> Inl e
           | Inr deleted_char \<Rightarrow>
               (let bigram = slice candidate (int i - 1) (int i + 1);
                    del_count = dict_get (del_counts st) ([prefix], [deleted_char]) 0;
                    bigram_count =
                      (if length bigram = 2 then dict_get (bigram_counts st) bigram 0
                       else dict_get (unigram_counts st) [prefix] 0)
                in log_div (del_count + 1) (bigram_count + total_bigram_count st))))"

text \<open>The body of the insertion loop, in the same way.\<close>

definition insertion_prob :: "corrector \<Rightarrow> ustring \<Rightarrow> ustring \<Rightarrow> nat \<Rightarrow> exn + pyfloat" where
  "insertion_prob st typo candidate i =
     (case getitem candidate (int i - 1) of
        Inl e \<Rightarrow> Inl e
      | Inr prefix \<Rightarrow>
          (case getitem typo (int i) of
             Inl e \<Rightarrow> Inl e
           | Inr added_char \<Rightarrow>
               (let add_count = dict_get (add_counts st) ([prefix], [added_char]) 0;
                    prefix_count =
                      (if [prefix] \<noteq> str ''#'' then dict_get (unigram_counts st) [prefix] 0
                       else total_word_count st)
                in log_div (add_count + 1) (prefix_count + total_unigram_count st))))"

text \<open>
  The list \<^verbatim>\<open>diffs\<close> of the third branch: \<^verbatim>\<open>typo[i]\<close> and \<^verbatim>\<open>candidate[i]\<close> are
  read for \<open>i\<close> below the common length only.
\<close>

definition diffs :: "ustring \<Rightarrow> ustring \<Rightarrow> (nat \<times> nat \<times> nat) list" where
  "diffs typo candidate =
     [(i, typo ! i, candidate ! i). i \<leftarrow> [0..<length typo], typo ! i \<noteq> candidate ! i]"

definition substitution_prob :: "corrector \<Rightarrow> ustring \<Rightarrow> ustring \<Rightarrow> exn + pyfloat" where
  "substitution_prob st typo candidate =
     (let ds = diffs typo candidate in
      if length ds = 1 then
        (case ds ! 0 of (i, typo_char, cand_char) \<Rightarrow>
           (let sub_count = dict_get (sub_counts st) ([cand_char], [typo_char]) 0;
                unigram_count = dict_get (unigram_counts st) [cand_char] 0
            in log_div (sub_count + 1) (unigram_count + total_unigram_count st)))
      else if length ds = 2 then
        (case ds ! 0 of (i1, t1, c1) \<Rightarrow>
           (case ds ! 1 of (i2, t2, c2) \<Rightarrow>
              if i2 = i1 + 1 \<and> t1 = c2 \<and> t2 = c1 then log_div 1 (total_word_count st)
              else Inr NegInf))
      else Inr NegInf)"

text \<open>
  \<^verbatim>\<open>_log_channel_prob\<close>. Each \<^verbatim>\<open>for\<close> loop returns at the first index that
  satisfies its test, which is what \<open>find\<close> computes; the test reads \<^verbatim>\<open>typo[i]\<close> only
  after the length check of the \<^verbatim>\<open>or\<close>. A loop that ends without returning falls
  through to the last line of the function.
\<close>

definition log_channel_prob :: "corrector \<Rightarrow> ustring \<Rightarrow> ustring \<Rightarrow> exn + pyfloat" where
  "log_channel_prob st typo0 candidate0 =
     (let typo = str ''#'' @ typo0; candidate = str ''#'' @ candidate0 in
      if length typo < length candidate then
        (case find (\<lambda>i. i \<ge> length typo \<or> typo ! i \<noteq> candidate ! i) [0..<length candidate] of
           Some i \<Rightarrow> deletion_prob st candidate i
         | None \<Rightarrow> Inr NegInf)
      else if length typo > length candidate then
        (case find (\<lambda>i. i \<ge> length candidate \<or> typo ! i \<noteq> candidate ! i) [0..<length typo] of
           Some i \<Rightarrow> insertion_prob st typo candidate i
         | None \<Rightarrow> Inr NegInf)
      else if length typo = length candidate then substitution_prob st typo candidate
      else Inr NegInf)"

section \<open>The corrector\<close>

text \<open>
  What \<^verbatim>\<open>correct\<close> takes from the Python it runs on: Unicode's lower-case tables for
  the characters that are not ASCII, and the order in which a set of strings is iterated,
  which depends on string hashing. Nothing is assumed about either.
\<close>

record interp =
  lower_table :: "ustring \<Rightarrow> nat \<Rightarrow> ustring"
  set_order :: "ustring set \<Rightarrow> ustring list"

text \<open>
  The scoring loop of \<^verbatim>\<open>correct\<close> over the candidates in the order the set hands them
  out; the first exception ends it. The dictionary \<^verbatim>\<open>scored_candidates\<close> is the list of
  its items in insertion order.
\<close>

fun score_candidates :: "corrector \<Rightarrow> ustring \<Rightarrow> ustring list \<Rightarrow> exn + (ustring \<times> pyfloat) list" where
  "score_candidates st word [] = Inr []"
| "score_candidates st word (cand # rest) =
     (case log_prior_prob st cand of
        Inl e \<Rightarrow> Inl e
      | Inr log_prior \<Rightarrow>
          (case log_channel_prob st word cand of
             Inl e \<Rightarrow> Inl e
           | Inr log_channel \<Rightarrow>
               (case score_candidates st word rest of
                  Inl e \<Rightarrow> Inl e
                | Inr scored \<Rightarrow> Inr ((cand, float_add log_prior log_channel) # scored))))"

text \<open>\<^verbatim>\<open>max(d, key=d.get)\<close>: the first item whose score no later item exceeds.\<close>

fun max_by :: "ustring \<times> pyfloat \<Rightarrow> (ustring \<times> pyfloat) list \<Rightarrow> ustring \<times> pyfloat" where
  "max_by best [] = best"
| "max_by best (x # xs) = max_by (if float_gt (snd x) (snd best) then x else best) xs"

text \<open>\<^verbatim>\<open>correct\<close>.\<close>

definition correct :: "interp \<Rightarrow> corrector \<Rightarrow> ustring \<Rightarrow> exn + ustring" where
  "correct py st original_word =
     (let word = str_lower (lower_table py) original_word in
      if word \<in> vocabulary st then Inr word
      else
        (let candidates = generate_candidates st word in
         if candidates = {} then Inr original_word
         else
           (case score_candidates st word (set_order py candidates) of
              Inl e \<Rightarrow> Inl e
            | Inr scored \<Rightarrow>
                (case scored of
                   [] \<Rightarrow> Inr original_word
                 | x # xs \<Rightarrow> Inr (fst (max_by x xs))))))"

section \<open>Loading the tables and constructing the corrector\<close>
















section \<open>The specification's side of the channel model\<close>

text \<open>
  The first index at which two strings diverge: the length of their longest common
  prefix, which is the length of the shorter string when it is a prefix of the other.
\<close>

fun first_divergence :: "ustring \<Rightarrow> ustring \<Rightarrow> nat" where
  "first_divergence (x # xs) (y # ys) = (if x = y then Suc (first_divergence xs ys) else 0)"
| "first_divergence _ _ = 0"

text \<open>The positions at which two strings of equal length differ, and their ascending list.\<close>

definition diff_positions :: "ustring \<Rightarrow> ustring \<Rightarrow> nat set" where
  "diff_positions T C = {i. i < length T \<and> T ! i \<noteq> C ! i}"

definition diff_list :: "ustring \<Rightarrow> ustring \<Rightarrow> nat list" where
  "diff_list T C = filter (\<lambda>i. T ! i \<noteq> C ! i) [0..<length T]"

text \<open>
  Two conditions on a store. Every count read from a table, with the default 0 for a
  missing key, is non-negative, as the data model has it. And every count, every total
  and the size of the vocabulary are below \<open>2 ^ 1000\<close>, which keeps each quotient of
  the scoring within the doubles.
\<close>

definition nonneg_counts :: "corrector \<Rightarrow> bool" where
  "nonneg_counts st =
     ((\<forall>k. 0 \<le> dict_get (unigram_counts st) k 0) \<and> (\<forall>k. 0 \<le> dict_get (bigram_counts st) k 0)
      \<and> (\<forall>k. 0 \<le> dict_get (sub_counts st) k 0) \<and> (\<forall>k. 0 \<le> dict_get (del_counts st) k 0)
      \<and> (\<forall>k. 0 \<le> dict_get (add_counts st) k 0) \<and> (\<forall>k. 0 \<le> dict_get (vocab st) k 0))"

definition small_counts :: "corrector \<Rightarrow> bool" where
  "small_counts st =
     ((\<forall>k. dict_get (unigram_counts st) k 0 < 2 ^ 1000)
      \<and> (\<forall>k. dict_get (bigram_counts st) k 0 < 2 ^ 1000)
      \<and> (\<forall>k. dict_get (sub_counts st) k 0 < 2 ^ 1000)
      \<and> (\<forall>k. dict_get (del_counts st) k 0 < 2 ^ 1000)
      \<and> (\<forall>k. dict_get (add_counts st) k 0 < 2 ^ 1000)
      \<and> (\<forall>k. dict_get (vocab st) k 0 < 2 ^ 1000)
      \<and> total_word_count st < 2 ^ 1000 \<and> total_unigram_count st < 2 ^ 1000
      \<and> total_bigram_count st < 2 ^ 1000 \<and> int (card (vocabulary st)) < 2 ^ 1000)"

section \<open>Example stores\<close>

text \<open>
  A small corrector object, and a Python for it: an iteration order for sets of its
  vocabulary words, and lower-case tables that keep every character that is not ASCII,
  which is what Unicode's tables do to a character without a lower-case form.
\<close>

definition example_store :: corrector where
  "example_store =
     \<lparr> unigram_counts = [str ''l'' \<mapsto> 40, str ''a'' \<mapsto> 60, str ''e'' \<mapsto> 40],
       bigram_counts = [str ''el'' \<mapsto> 7, str ''ll'' \<mapsto> 3],
       sub_counts = [(str ''a'', str ''e'') \<mapsto> 5],
       del_counts = [(str ''l'', str ''l'') \<mapsto> 2],
       add_counts = [(str ''#'', str ''x'') \<mapsto> 1],
       vocab = [str ''spelling'' \<mapsto> 100, str ''peace'' \<mapsto> 50, str ''a'' \<mapsto> 900],
       vocabulary = {str ''spelling'', str ''peace'', str ''a''},
       total_word_count = 1050,
       total_unigram_count = 140,
       total_bigram_count = 10 \<rparr>"

definition example_interp :: interp where
  "example_interp =
     \<lparr> lower_table = (\<lambda>s i. [s ! i]),
       set_order = (\<lambda>S. filter (\<lambda>w. w \<in> S) [str ''a'', str ''peace'', str ''spelling'']) \<rparr>"

text \<open>
  A store with one word and a negative substitution count, and one with one word and a
  substitution count of \<open>2 ^ 1100\<close>; in both every total is positive. The Python for them
  hands out the one candidate.
\<close>

definition negative_store :: corrector where
  "negative_store =
     \<lparr> unigram_counts = [str ''b'' \<mapsto> 1],
       bigram_counts = [str ''ab'' \<mapsto> 1],
       sub_counts = [(str ''b'', str ''c'') \<mapsto> - 1],
       del_counts = Map.empty,
       add_counts = Map.empty,
       vocab = [str ''ab'' \<mapsto> 5],
       vocabulary = {str ''ab''},
       total_word_count = 5,
       total_unigram_count = 1,
       total_bigram_count = 1 \<rparr>"

definition huge_store :: corrector where
  "huge_store = negative_store \<lparr> sub_counts := [(str ''b'', str ''c'') \<mapsto> 2 ^ 1100] \<rparr>"

definition one_word_interp :: interp where
  "one_word_interp = \<lparr> lower_table = (\<lambda>s i. [s ! i]), set_order = (\<lambda>S. [str ''ab'']) \<rparr>"



section \<open>Facts about candidate generation\<close>

lemma set_splits: "(xs, ys) \<in> set (splits w) \<longleftrightarrow> w = xs @ ys"
proof
  assume "(xs, ys) \<in> set (splits w)"
  then show "w = xs @ ys" by (auto simp: splits_def)
next
  assume w: "w = xs @ ys"
  have "(xs, ys) = (\<lambda>i. (take i w, drop i w)) (length xs)"
    by (simp add: w)
  moreover have "length xs \<in> set [0..<length w + 1]"
    by (simp add: w)
  ultimately show "(xs, ys) \<in> set (splits w)"
    unfolding splits_def set_map by (rule image_eqI)
qed

lemma in_deletes: "v \<in> set (deletes w) \<longleftrightarrow> (\<exists>L R. w = L @ R \<and> R \<noteq> [] \<and> v = L @ drop 1 R)"
  unfolding deletes_def by (force simp: set_splits)

lemma in_transposes: "v \<in> set (transposes w) \<longleftrightarrow>
   (\<exists>L R. w = L @ R \<and> length R > 1 \<and> v = L @ [R ! 1] @ [R ! 0] @ drop 2 R)"
  unfolding transposes_def by (force simp: set_splits)

lemma in_replaces: "v \<in> set (replaces w) \<longleftrightarrow>
   (\<exists>L R c. w = L @ R \<and> R \<noteq> [] \<and> c \<in> set alphabet \<and> v = L @ [c] @ drop 1 R)"
  unfolding replaces_def by (force simp: set_splits)

lemma in_inserts: "v \<in> set (inserts w) \<longleftrightarrow>
   (\<exists>L R c. w = L @ R \<and> c \<in> set alphabet \<and> v = L @ [c] @ R)"
  unfolding inserts_def by (force simp: set_splits)


lemma edits_to_edit1: "v \<in> all_edits w \<Longrightarrow> edit1 w v"
proof -
  assume "v \<in> all_edits w"
  then have "v \<in> set (deletes w) \<or> v \<in> set (transposes w) \<or> v \<in> set (replaces w) \<or> v \<in> set (inserts w)"
    by (simp add: all_edits_def)
  then consider (d) "v \<in> set (deletes w)" | (t) "v \<in> set (transposes w)"
     | (r) "v \<in> set (replaces w)" | (i) "v \<in> set (inserts w)" by blast
  then show "edit1 w v"
  proof cases
    case d
    then obtain L R where h: "w = L @ R" "R \<noteq> []" "v = L @ drop 1 R"
      unfolding in_deletes by blast
    then obtain a ys where "R = a # ys" by (cases R) simp_all
    with h show ?thesis by (simp add: edit1.deletion)
  next
    case t
    then obtain L R where h: "w = L @ R" "length R > 1" "v = L @ [R ! 1] @ [R ! 0] @ drop 2 R"
      unfolding in_transposes by blast
    then obtain a R' where R: "R = a # R'" by (cases R) simp_all
    with h obtain b ys where "R' = b # ys" by (cases R') simp_all
    with h R show ?thesis by (simp add: edit1.transposition)
  next
    case r
    then obtain L R c where h: "w = L @ R" "R \<noteq> []" "c \<in> set alphabet" "v = L @ [c] @ drop 1 R"
      unfolding in_replaces by blast
    then obtain a ys where "R = a # ys" by (cases R) simp_all
    with h show ?thesis by (simp add: edit1.substitution)
  next
    case i
    then obtain L R c where h: "w = L @ R" "c \<in> set alphabet" "v = L @ [c] @ R"
      unfolding in_inserts by blast
    then show ?thesis by (simp add: edit1.insertion)
  qed
qed


lemma edit1_to_edits: "edit1 w v \<Longrightarrow> v \<in> all_edits w"
proof (induction rule: edit1.induct)
  case (deletion xs a ys)
  have "\<exists>L R. xs @ a # ys = L @ R \<and> R \<noteq> [] \<and> xs @ ys = L @ drop 1 R"
    by (rule exI[of _ xs], rule exI[of _ "a # ys"]) simp
  then show ?case by (simp add: all_edits_def in_deletes)
next
  case (transposition xs a b ys)
  have "\<exists>L R. xs @ a # b # ys = L @ R \<and> length R > 1
       \<and> xs @ b # a # ys = L @ [R ! 1] @ [R ! 0] @ drop 2 R"
    by (rule exI[of _ xs], rule exI[of _ "a # b # ys"]) simp
  then show ?case by (simp add: all_edits_def in_transposes)
next
  case (substitution c xs a ys)
  then have "\<exists>L R c'. xs @ a # ys = L @ R \<and> R \<noteq> [] \<and> c' \<in> set alphabet
       \<and> xs @ c # ys = L @ [c'] @ drop 1 R"
    by (intro exI[of _ xs] exI[of _ "a # ys"] exI[of _ c]) simp
  then show ?case by (simp add: all_edits_def in_replaces)
next
  case (insertion c xs ys)
  then have "\<exists>L R c'. xs @ ys = L @ R \<and> c' \<in> set alphabet \<and> xs @ c # ys = L @ [c'] @ R"
    by (intro exI[of _ xs] exI[of _ ys] exI[of _ c]) simp
  then show ?case by (simp add: all_edits_def in_inserts)
qed

lemma inserts_Nil: "inserts [] = map (\<lambda>c. [c]) alphabet"
  by (simp add: inserts_def splits_def)

lemma others_Nil: "deletes [] = []" "transposes [] = []" "replaces [] = []"
  by (simp_all add: deletes_def transposes_def replaces_def splits_def)

lemma gen_empty: "generate_candidates st [] = (\<lambda>c. [c]) ` set alphabet \<inter> vocabulary st"
  unfolding generate_candidates_def all_edits_def inserts_Nil others_Nil by auto

section \<open>Facts about lower-casing\<close>

lemma str_hash: "str ''#'' = [35]"
  by (simp add: str_def)

lemma concat_singletons: "concat (map (\<lambda>i. [f i]) xs) = map f xs"
  by (induction xs) simp_all

lemma str_lower_ascii_fixed:
  assumes "\<forall>c \<in> set s. c < 128 \<and> \<not> is_ascii_upper c"
  shows "str_lower tbl s = s"
proof -
  have eq: "map (\<lambda>i. if s ! i < 128 then [ascii_lower (s ! i)] else tbl s i) [0..<length s]
      = map (\<lambda>i. [s ! i]) [0..<length s]"
  proof (rule map_cong [OF refl])
    fix i assume "i \<in> set [0..<length s]"
    then have "s ! i \<in> set s" by simp
    with assms have "s ! i < 128" "\<not> is_ascii_upper (s ! i)" by blast+
    then show "(if s ! i < 128 then [ascii_lower (s ! i)] else tbl s i) = [s ! i]"
      by (simp add: ascii_lower_def)
  qed
  have "str_lower tbl s = concat (map (\<lambda>i. [s ! i]) [0..<length s])"
    by (simp only: str_lower_def eq)
  also have "\<dots> = map (\<lambda>i. s ! i) [0..<length s]" by (rule concat_singletons)
  also have "\<dots> = s" by (rule map_nth)
  finally show ?thesis .
qed

lemma alphabet_chars: "c \<in> set alphabet \<Longrightarrow> c < 128 \<and> \<not> is_ascii_upper c"
  by (auto simp: alphabet_def str_def is_ascii_upper_def)

lemma str_lower_alphabet: "set w \<subseteq> set alphabet \<Longrightarrow> str_lower tbl w = w"
  using alphabet_chars by (intro str_lower_ascii_fixed) blast




lemma example_lower:
  "str_lower (lower_table example_interp) (str ''Zzxyy'') = str ''zzxyy''"
  "str_lower (lower_table example_interp) (str ''Peace'') = str ''peace''"
  "str_lower (lower_table example_interp) (str ''Speling'') = str ''speling''"
  "str_lower (lower_table example_interp) [8450] = [8450]"
  by (simp_all add: str_lower_def example_interp_def str_def ascii_lower_def is_ascii_upper_def
      upt_rec)

lemma example_no_edits:
  "str ''a'' \<notin> all_edits (str ''zzxyy'')" "str ''peace'' \<notin> all_edits (str ''zzxyy'')"
  "str ''spelling'' \<notin> all_edits (str ''zzxyy'')"
  by (simp_all add: all_edits_def deletes_def transposes_def replaces_def inserts_def splits_def
      alphabet_def str_def)

lemma example_no_candidates: "generate_candidates example_store (str ''zzxyy'') = {}"
  using example_no_edits by (auto simp: generate_candidates_def example_store_def)

section \<open>Facts about the channel model\<close>

lemma first_divergence_le:
  "first_divergence xs ys \<le> length xs \<and> first_divergence xs ys \<le> length ys"
  by (induction xs ys rule: first_divergence.induct) simp_all

lemma first_divergence_agree:
  "j < first_divergence xs ys \<Longrightarrow> xs ! j = ys ! j"
proof (induction xs ys arbitrary: j rule: first_divergence.induct)
  case (1 x xs y ys)
  then show ?case by (cases j) (auto split: if_splits)
qed simp_all

lemma first_divergence_differ:
  "first_divergence xs ys < length xs \<Longrightarrow> first_divergence xs ys < length ys
   \<Longrightarrow> xs ! first_divergence xs ys \<noteq> ys ! first_divergence xs ys"
  by (induction xs ys rule: first_divergence.induct) (auto split: if_splits)

lemma find_upt_first:
  assumes "k < n" "P k" "\<And>j. j < k \<Longrightarrow> \<not> P j"
  shows "find P [0..<n] = Some k"
proof -
  have "\<exists>i<length [0..<n]. P ([0..<n] ! i) \<and> k = [0..<n] ! i \<and> (\<forall>j<i. \<not> P ([0..<n] ! j))"
    using assms by (intro exI[of _ k]) simp
  then show ?thesis by (simp only: find_Some_iff)
qed

lemma find_deletion:
  assumes "length T < length C"
  shows "find (\<lambda>i. i \<ge> length T \<or> T ! i \<noteq> C ! i) [0..<length C] = Some (first_divergence T C)"
proof (rule find_upt_first)
  show "first_divergence T C < length C"
    using first_divergence_le [of T C] assms by linarith
  show "length T \<le> first_divergence T C \<or> T ! first_divergence T C \<noteq> C ! first_divergence T C"
    using first_divergence_differ [of T C] first_divergence_le [of T C] assms by linarith
  show "\<not> (length T \<le> j \<or> T ! j \<noteq> C ! j)" if "j < first_divergence T C" for j
    using that first_divergence_agree [of j T C] first_divergence_le [of T C] by simp
qed

lemma find_insertion:
  assumes "length C < length T"
  shows "find (\<lambda>i. i \<ge> length C \<or> T ! i \<noteq> C ! i) [0..<length T] = Some (first_divergence T C)"
proof (rule find_upt_first)
  show "first_divergence T C < length T"
    using first_divergence_le [of T C] assms by linarith
  show "length C \<le> first_divergence T C \<or> T ! first_divergence T C \<noteq> C ! first_divergence T C"
    using first_divergence_differ [of T C] first_divergence_le [of T C] assms by linarith
  show "\<not> (length C \<le> j \<or> T ! j \<noteq> C ! j)" if "j < first_divergence T C" for j
    using that first_divergence_agree [of j T C] first_divergence_le [of T C] by simp
qed

lemma getitem_nat: "i < length s \<Longrightarrow> getitem s (int i) = Inr (s ! i)"
  by (simp add: getitem_def)

lemma getitem_pred: "0 < i \<Longrightarrow> i \<le> length s \<Longrightarrow> getitem s (int i - 1) = Inr (s ! (i - 1))"
  by (simp add: getitem_def nat_diff_distrib')

lemma slice_window:
  assumes "0 < i" "i < length s"
  shows "slice s (int i - 1) (int i + 1) = [s ! (i - 1), s ! i]"
proof -
  obtain k where k: "i = Suc k" using assms(1) by (cases i) auto
  have "slice s (int i - 1) (int i + 1) = take 2 (drop k s)"
    using assms k by (simp add: slice_def)
  also have "\<dots> = [s ! k, s ! Suc k]"
  proof -
    have "drop k s = s ! k # drop (Suc k) s" using assms k by (simp add: Cons_nth_drop_Suc)
    moreover have "drop (Suc k) s = s ! Suc k # drop (Suc (Suc k)) s"
      using assms k by (simp add: Cons_nth_drop_Suc)
    ultimately show ?thesis by (simp add: numeral_2_eq_2)
  qed
  finally show ?thesis by (simp add: k)
qed

lemma channel_deletion:
  assumes "length typo < length cand"
  shows "log_channel_prob st typo cand =
     (let C = 35 # cand; k = first_divergence typo cand
      in log_div (dict_get (del_counts st) ([C ! k], [C ! Suc k]) 0 + 1)
           (dict_get (bigram_counts st) [C ! k, C ! Suc k] 0 + total_bigram_count st))"
proof -
  let ?T = "35 # typo" and ?C = "35 # cand"
  let ?k = "first_divergence typo cand"
  have fd: "first_divergence ?T ?C = Suc ?k" by simp
  have lt: "length ?T < length ?C" using assms by simp
  have k: "Suc ?k < length ?C"
    using first_divergence_le [of typo cand] assms by simp
  have f: "find (\<lambda>i. i \<ge> length ?T \<or> ?T ! i \<noteq> ?C ! i) [0..<length ?C] = Some (Suc ?k)"
    using find_deletion [OF lt] fd by simp
  have g1: "getitem ?C (int (Suc ?k) - 1) = Inr (?C ! ?k)"
    using getitem_pred [of "Suc ?k" ?C] k by simp
  have g2: "getitem ?C (int (Suc ?k)) = Inr (?C ! Suc ?k)"
    using getitem_nat [OF k] .
  have s: "slice ?C (int (Suc ?k) - 1) (int (Suc ?k) + 1) = [?C ! ?k, ?C ! Suc ?k]"
    using slice_window [of "Suc ?k" ?C] k by simp
  have "deletion_prob st ?C (Suc ?k) =
      log_div (dict_get (del_counts st) ([?C ! ?k], [?C ! Suc ?k]) 0 + 1)
           (dict_get (bigram_counts st) [?C ! ?k, ?C ! Suc ?k] 0 + total_bigram_count st)"
    unfolding deletion_prob_def g1 g2 s by (simp add: Let_def)
  moreover have "log_channel_prob st typo cand = deletion_prob st ?C (Suc ?k)"
    unfolding log_channel_prob_def Let_def str_hash using lt f by simp
  ultimately show ?thesis by (simp add: Let_def)
qed

lemma channel_insertion:
  assumes "length cand < length typo"
  shows "log_channel_prob st typo cand =
     (let T = 35 # typo; C = 35 # cand; k = first_divergence typo cand
      in log_div (dict_get (add_counts st) ([C ! k], [T ! Suc k]) 0 + 1)
           ((if C ! k \<noteq> 35 then dict_get (unigram_counts st) [C ! k] 0
             else total_word_count st) + total_unigram_count st))"
proof -
  let ?T = "35 # typo" and ?C = "35 # cand"
  let ?k = "first_divergence typo cand"
  have fd: "first_divergence ?T ?C = Suc ?k" by simp
  have lt: "length ?C < length ?T" using assms by simp
  have k: "Suc ?k < length ?T" "Suc ?k \<le> length ?C"
    using first_divergence_le [of typo cand] assms by simp_all
  have f: "find (\<lambda>i. i \<ge> length ?C \<or> ?T ! i \<noteq> ?C ! i) [0..<length ?T] = Some (Suc ?k)"
    using find_insertion [OF lt] fd by simp
  have g1: "getitem ?C (int (Suc ?k) - 1) = Inr (?C ! ?k)"
    using getitem_pred [of "Suc ?k" ?C] k by simp
  have g2: "getitem ?T (int (Suc ?k)) = Inr (?T ! Suc ?k)"
    using getitem_nat [OF k(1)] .
  have "insertion_prob st ?T ?C (Suc ?k) =
      log_div (dict_get (add_counts st) ([?C ! ?k], [?T ! Suc ?k]) 0 + 1)
           ((if ?C ! ?k \<noteq> 35 then dict_get (unigram_counts st) [?C ! ?k] 0
             else total_word_count st) + total_unigram_count st)"
    unfolding insertion_prob_def g1 g2 by (simp add: Let_def str_hash)
  moreover have "log_channel_prob st typo cand = insertion_prob st ?T ?C (Suc ?k)"
    unfolding log_channel_prob_def Let_def str_hash using lt f by simp
  ultimately show ?thesis by (simp add: Let_def)
qed

lemma concat_map_if: "concat (map (\<lambda>x. if P x then [f x] else []) xs) = map f (filter P xs)"
  by (induction xs) simp_all

lemma diffs_diff_list: "diffs T C = map (\<lambda>i. (i, T ! i, C ! i)) (diff_list T C)"
  unfolding diffs_def diff_list_def by (simp add: concat_map_if)

lemma set_diff_list: "set (diff_list T C) = diff_positions T C"
  by (auto simp: diff_list_def diff_positions_def)

lemma sorted_diff_list: "sorted (diff_list T C)" "distinct (diff_list T C)"
  unfolding diff_list_def by (rule sorted_wrt_filter) simp_all

lemma diff_list_single: "diff_positions T C = {i} \<Longrightarrow> diff_list T C = [i]"
proof -
  assume "diff_positions T C = {i}"
  then have "set (diff_list T C) = set [i]" by (simp add: set_diff_list)
  then show ?thesis
    using sorted_diff_list [of T C] by (intro sorted_distinct_set_unique) simp_all
qed

lemma diff_list_pair: "diff_positions T C = {i, Suc i} \<Longrightarrow> diff_list T C = [i, Suc i]"
proof -
  assume "diff_positions T C = {i, Suc i}"
  then have "set (diff_list T C) = set [i, Suc i]" by (simp add: set_diff_list)
  then show ?thesis
    using sorted_diff_list [of T C] by (intro sorted_distinct_set_unique) simp_all
qed

lemma channel_equal_length:
  "length typo = length cand \<Longrightarrow>
   log_channel_prob st typo cand = substitution_prob st (35 # typo) (35 # cand)"
  by (simp add: log_channel_prob_def Let_def str_hash)

lemma substitution_single:
  assumes "diff_positions T C = {i}"
  shows "substitution_prob st T C =
     log_div (dict_get (sub_counts st) ([C ! i], [T ! i]) 0 + 1)
       (dict_get (unigram_counts st) [C ! i] 0 + total_unigram_count st)"
  unfolding substitution_prob_def diffs_diff_list diff_list_single [OF assms]
  by (simp add: Let_def)

lemma substitution_swap:
  assumes "diff_positions T C = {i, Suc i}" "T ! i = C ! Suc i" "T ! Suc i = C ! i"
  shows "substitution_prob st T C = log_div 1 (total_word_count st)"
  unfolding substitution_prob_def diffs_diff_list diff_list_pair [OF assms(1)]
  using assms(2,3) by (simp add: Let_def)

lemma substitution_other:
  assumes "\<nexists>i. diff_positions T C = {i}"
    and "\<nexists>i. diff_positions T C = {i, Suc i} \<and> T ! i = C ! Suc i \<and> T ! Suc i = C ! i"
  shows "substitution_prob st T C = Inr NegInf"
proof -
  let ?L = "diff_list T C"
  have one: "length ?L \<noteq> 1"
  proof
    assume "length ?L = 1"
    then obtain x where "?L = [x]" by (cases ?L) auto
    then have "diff_positions T C = {x}" using set_diff_list [of T C] by simp
    with assms(1) show False by blast
  qed
  show ?thesis
  proof (cases "length ?L = 2")
    case False
    with one show ?thesis
      by (simp add: substitution_prob_def diffs_diff_list Let_def)
  next
    case True
    then obtain a b where L: "?L = [a, b]"
      by (cases ?L; cases "tl ?L") auto
    then have D: "diff_positions T C = {a, b}" using set_diff_list [of T C] by simp
    have "\<not> (b = a + 1 \<and> T ! a = C ! b \<and> T ! b = C ! a)"
      using assms(2) D by auto
    then show ?thesis
      unfolding substitution_prob_def diffs_diff_list L by (auto simp: Let_def)
  qed
qed

section \<open>Facts about the scores\<close>

lemma nonneg_countsD:
  assumes "nonneg_counts st"
  shows "0 \<le> dict_get (unigram_counts st) k 0" "0 \<le> dict_get (bigram_counts st) k 0"
    "0 \<le> dict_get (sub_counts st) p 0" "0 \<le> dict_get (del_counts st) p 0"
    "0 \<le> dict_get (add_counts st) p 0" "0 \<le> dict_get (vocab st) k 0"
  using assms unfolding nonneg_counts_def by blast+

lemma small_countsD:
  assumes "small_counts st"
  shows "dict_get (unigram_counts st) k 0 < 2 ^ 1000" "dict_get (bigram_counts st) k 0 < 2 ^ 1000"
    "dict_get (sub_counts st) p 0 < 2 ^ 1000" "dict_get (del_counts st) p 0 < 2 ^ 1000"
    "dict_get (add_counts st) p 0 < 2 ^ 1000" "dict_get (vocab st) k 0 < 2 ^ 1000"
    "total_word_count st < 2 ^ 1000" "total_unigram_count st < 2 ^ 1000"
    "total_bigram_count st < 2 ^ 1000" "int (card (vocabulary st)) < 2 ^ 1000"
  using assms unfolding small_counts_def by blast+

lemma two_small: "(x::int) < 2 ^ 1000 \<Longrightarrow> y < 2 ^ 1000 \<Longrightarrow> x + y \<le> 2 ^ 1001"
  by simp

lemma one_small: "(x::int) < 2 ^ 1000 \<Longrightarrow> x + 1 \<le> 2 ^ 1001"
  by simp

lemma log_div_small:
  assumes "0 < a" "0 < b" "a \<le> 2 ^ 1001" "b \<le> 2 ^ 1001"
  shows "log_div a b = Inr (Fin (ln (real_of_int a / real_of_int b)))"
proof -
  let ?q = "real_of_int a / real_of_int b"
  have a: "1 \<le> real_of_int a" "real_of_int a \<le> 2 ^ 1001" using assms(1,3) by simp_all
  have b: "1 \<le> real_of_int b" "real_of_int b \<le> 2 ^ 1001" using assms(2,4) by simp_all
  have qpos: "0 < ?q" using assms(1,2) by simp
  have up: "?q \<le> 2 ^ 1001 / 1"
    using a b by (intro frac_le) simp_all
  have lo: "1 / 2 ^ 1001 \<le> ?q"
    using a b by (intro frac_le) simp_all
  have big: "(2::real) ^ 1001 / 1 < 2 ^ 1024 - 2 ^ 970" by simp
  have tiny: "(1::real) / 2 ^ 1075 < 1 / 2 ^ 1001" by simp
  have "?q < 2 ^ 1024 - 2 ^ 970" by (rule le_less_trans [OF up big])
  then have 1: "\<not> (2 ^ 1024 - 2 ^ 970 \<le> \<bar>?q\<bar>)"
    unfolding abs_of_pos [OF qpos] by (simp only: not_le)
  have "1 / 2 ^ 1075 < ?q" by (rule less_le_trans [OF tiny lo])
  then have 2: "\<not> (?q \<le> 1 / 2 ^ 1075)" by (simp only: not_le)
  have 3: "b \<noteq> 0" using assms(2) by simp
  show ?thesis
    unfolding log_div_def Let_def by (simp only: 1 2 3 if_False)
qed

lemma prior_returns:
  assumes "nonneg_counts st" "small_counts st" "0 < total_word_count st"
  shows "\<exists>x. log_prior_prob st c = Inr x"
proof -
  have 1: "0 < dict_get (vocab st) c 0 + 1"
    using nonneg_countsD(6) [OF assms(1), of c] by linarith
  have 2: "0 < total_word_count st + int (card (vocabulary st))"
    using assms(3) by simp
  have 3: "dict_get (vocab st) c 0 + 1 \<le> 2 ^ 1001"
    using small_countsD(6) [OF assms(2), of c] by (rule one_small)
  have 4: "total_word_count st + int (card (vocabulary st)) \<le> 2 ^ 1001"
    using small_countsD(7,10) [OF assms(2)] by (rule two_small)
  show ?thesis
    unfolding log_prior_prob_def Let_def by (simp add: log_div_small [OF 1 2 3 4])
qed

lemma substitution_returns:
  assumes "nonneg_counts st" "small_counts st" "0 < total_word_count st"
    "0 < total_unigram_count st"
  shows "\<exists>x. substitution_prob st T C = Inr x"
proof -
  have sub: "\<exists>x. log_div (dict_get (sub_counts st) k 0 + 1)
       (dict_get (unigram_counts st) u 0 + total_unigram_count st) = Inr x" for k u
  proof -
    have 1: "0 < dict_get (sub_counts st) k 0 + 1"
      using nonneg_countsD(3) [OF assms(1), of k] by linarith
    have 2: "0 < dict_get (unigram_counts st) u 0 + total_unigram_count st"
      using nonneg_countsD(1) [OF assms(1), of u] assms(4) by linarith
    have 3: "dict_get (sub_counts st) k 0 + 1 \<le> 2 ^ 1001"
      using small_countsD(3) [OF assms(2), of k] by (rule one_small)
    have 4: "dict_get (unigram_counts st) u 0 + total_unigram_count st \<le> 2 ^ 1001"
      using small_countsD(1) [OF assms(2), of u] small_countsD(8) [OF assms(2)] by (rule two_small)
    show ?thesis by (simp add: log_div_small [OF 1 2 3 4])
  qed
  have tw: "\<exists>x. log_div 1 (total_word_count st) = Inr x"
  proof -
    have 4: "total_word_count st \<le> 2 ^ 1001"
      using small_countsD(7) [OF assms(2)] by simp
    show ?thesis using log_div_small [OF _ assms(3) _ 4, of 1] by simp
  qed
  obtain i tc cc where d0: "diffs T C ! 0 = (i, tc, cc)" by (cases "diffs T C ! 0") auto
  obtain i2 t2 c2 where d1: "diffs T C ! 1 = (i2, t2, c2)" by (cases "diffs T C ! 1") auto
  show ?thesis
    unfolding substitution_prob_def Let_def d0 d1
    using sub tw by simp
qed

lemma channel_returns:
  assumes "nonneg_counts st" "small_counts st" "0 < total_word_count st"
    "0 < total_unigram_count st" "0 < total_bigram_count st"
  shows "\<exists>x. log_channel_prob st typo cand = Inr x"
proof -
  consider (d) "length typo < length cand" | (i) "length cand < length typo"
    | (e) "length typo = length cand" by linarith
  then show ?thesis
  proof cases
    case d
    have 1: "0 < dict_get (del_counts st) k 0 + 1" for k
      using nonneg_countsD(4) [OF assms(1), of k] by linarith
    have 2: "0 < dict_get (bigram_counts st) u 0 + total_bigram_count st" for u
      using nonneg_countsD(2) [OF assms(1), of u] assms(5) by linarith
    have 3: "dict_get (del_counts st) k 0 + 1 \<le> 2 ^ 1001" for k
      using small_countsD(4) [OF assms(2), of k] by (rule one_small)
    have 4: "dict_get (bigram_counts st) u 0 + total_bigram_count st \<le> 2 ^ 1001" for u
      using small_countsD(2) [OF assms(2), of u] small_countsD(9) [OF assms(2)] by (rule two_small)
    show ?thesis
      unfolding channel_deletion [OF d] Let_def by (simp add: log_div_small [OF 1 2 3 4])
  next
    case i
    have 1: "0 < dict_get (add_counts st) k 0 + 1" for k
      using nonneg_countsD(5) [OF assms(1), of k] by linarith
    have 3: "dict_get (add_counts st) k 0 + 1 \<le> 2 ^ 1001" for k
      using small_countsD(5) [OF assms(2), of k] by (rule one_small)
    have 2: "0 < (if x then dict_get (unigram_counts st) u 0 else total_word_count st)
         + total_unigram_count st" for x u
      using nonneg_countsD(1) [OF assms(1), of u] assms(3,4) by simp
    have 4: "(if x then dict_get (unigram_counts st) u 0 else total_word_count st)
         + total_unigram_count st \<le> 2 ^ 1001" for x u
      using small_countsD(1) [OF assms(2), of u] small_countsD(7,8) [OF assms(2)]
      by (cases x) simp_all
    show ?thesis
      unfolding channel_insertion [OF i] Let_def by (simp only: log_div_small [OF 1 2 3 4]) blast
  next
    case e
    show ?thesis
      unfolding channel_equal_length [OF e] using substitution_returns [OF assms(1,2,3,4)] .
  qed
qed

lemma score_returns:
  assumes "nonneg_counts st" "small_counts st" "0 < total_word_count st"
    "0 < total_unigram_count st" "0 < total_bigram_count st"
  shows "\<exists>scored. score_candidates st word cands = Inr scored"
proof (induction cands)
  case Nil
  show ?case by simp
next
  case (Cons c cands)
  obtain p where p: "log_prior_prob st c = Inr p"
    using prior_returns [OF assms(1,2,3)] by blast
  obtain q where q: "log_channel_prob st word c = Inr q"
    using channel_returns [OF assms] by blast
  from Cons obtain r where r: "score_candidates st word cands = Inr r" by blast
  show ?case by (simp add: p q r)
qed

lemma example_diffs:
  "diff_positions (str ''#peece'') (str ''#peace'') = {3}"
  "diff_positions (str ''#paece'') (str ''#peace'') = {2, Suc 2}"
  "diff_positions (str ''#peace'') (str ''#peace'') = {}"
  "diff_positions (str ''#ac'') (str ''#ab'') = {2}"
  unfolding set_diff_list [symmetric]
  by (simp_all add: diff_list_def str_def upt_rec numeral_2_eq_2 numeral_3_eq_3)

lemma example_candidate: "generate_candidates negative_store (str ''ac'') = {str ''ab''}"
  by (auto simp: generate_candidates_def negative_store_def all_edits_def deletes_def
      transposes_def replaces_def inserts_def splits_def alphabet_def str_def)

lemma huge_candidate: "generate_candidates huge_store (str ''ac'') = {str ''ab''}"
  using example_candidate by (simp add: generate_candidates_def huge_store_def)

lemma one_word_lower: "str_lower (lower_table one_word_interp) (str ''ac'') = str ''ac''"
  by (simp add: str_lower_def one_word_interp_def str_def ascii_lower_def is_ascii_upper_def
      upt_rec)

lemma one_word_prior:
  "log_prior_prob negative_store (str ''ab'') = Inr (Fin 0)"
  "log_prior_prob huge_store (str ''ab'') = Inr (Fin 0)"
  by (simp_all add: log_prior_prob_def negative_store_def huge_store_def dict_get_def
      log_div_def)

lemma negative_channel:
  "log_channel_prob negative_store (str ''ac'') (str ''ab'') = Inl ValueError"
proof -
  have d: "diff_positions (35 # str ''ac'') (35 # str ''ab'') = {2}"
    using example_diffs(4) by (simp add: str_def)
  have l: "length (str ''ac'') = length (str ''ab'')" by (simp add: str_def)
  show ?thesis
    unfolding channel_equal_length [OF l] substitution_single [OF d]
    by (simp add: negative_store_def dict_get_def log_div_def str_def)
qed

lemma huge_channel:
  "log_channel_prob huge_store (str ''ac'') (str ''ab'') = Inl OverflowError"
proof -
  have d: "diff_positions (35 # str ''ac'') (35 # str ''ab'') = {2}"
    using example_diffs(4) by (simp add: str_def)
  have l: "length (str ''ac'') = length (str ''ab'')" by (simp add: str_def)
  show ?thesis
    unfolding channel_equal_length [OF l] substitution_single [OF d]
    by (simp add: negative_store_def huge_store_def dict_get_def log_div_def str_def)
qed

section \<open>Facts about loading\<close>











section \<open>Candidate generation is exact\<close>

text \<open>
  Claim C1. For every word \<open>w\<close> (in particular every word over the 26 lower-case
  letters), the candidate set is exactly the set of vocabulary words that one deletion, one
  adjacent transposition, one substitution by a letter of the alphabet or one insertion
  of a letter of the alphabet makes of \<open>w\<close>: every such word is in the set, and every
  member of the set is a vocabulary word.
\<close>

theorem generate_candidates_exact:
  "generate_candidates st w = {v. v \<in> vocabulary st \<and> edit1 w v}"
  using edits_to_edit1 edit1_to_edits by (auto simp: generate_candidates_def)

theorem generate_candidates_exact_witness:
  "str ''spelling'' \<in> generate_candidates example_store (str ''speling'')"
proof -
  have "edit1 (str ''spel'' @ str ''ing'') (str ''spel'' @ 108 # str ''ing'')"
    by (rule edit1.insertion) (simp add: alphabet_def str_def)
  then have "edit1 (str ''speling'') (str ''spelling'')" by (simp add: str_def)
  then show ?thesis
    using generate_candidates_exact [of example_store "str ''speling''"]
    by (simp add: example_store_def)
qed

section \<open>The empty word\<close>

text \<open>
  Claim C8 says that the empty string has no candidates. The insertions at the only split
  of the empty string are the 26 one-letter strings, so a vocabulary with a one-letter
  word gives a candidate: the example store has the word \<^verbatim>\<open>a\<close>.
\<close>

theorem generate_candidates_empty_word_nonempty:
  "generate_candidates example_store [] \<noteq> {}"
proof -
  have "str ''a'' \<in> generate_candidates example_store []"
    unfolding gen_empty by (simp add: example_store_def alphabet_def str_def)
  then show ?thesis by blast
qed

text \<open>
  Claim C8, amended. For the empty string the candidate set is the set of the one-letter
  words over the alphabet that are in the vocabulary.
\<close>

theorem generate_candidates_empty_word:
  "generate_candidates st [] = (\<lambda>c. [c]) ` set alphabet \<inter> vocabulary st"
  by (rule gen_empty)

section \<open>The early returns of the corrector\<close>

text \<open>
  Claim C5. For every word \<open>w\<close> of the vocabulary that is a string of lower-case
  letters of the alphabet, \<^verbatim>\<open>correct(w)\<close> returns \<open>w\<close>.
\<close>

theorem correct_vocabulary_word:
  "w \<in> vocabulary st \<Longrightarrow> set w \<subseteq> set alphabet \<Longrightarrow> correct py st w = Inr w"
  by (simp add: correct_def str_lower_alphabet)

theorem correct_vocabulary_word_witness:
  "str ''peace'' \<in> vocabulary example_store \<and> set (str ''peace'') \<subseteq> set alphabet
   \<and> correct example_interp example_store (str ''peace'') = Inr (str ''peace'')"
proof -
  have 1: "str ''peace'' \<in> vocabulary example_store" by (simp add: example_store_def)
  have 2: "set (str ''peace'') \<subseteq> set alphabet" by (simp add: alphabet_def str_def)
  show ?thesis using 1 2 correct_vocabulary_word [OF 1 2, of example_interp] by simp
qed

text \<open>
  Claim C6. When the lower-cased input is not in the vocabulary and the generator gives no
  candidate for it, \<^verbatim>\<open>correct\<close> returns the input as it was given, in its own case.
\<close>

theorem correct_no_candidates:
  "str_lower (lower_table py) w \<notin> vocabulary st
   \<Longrightarrow> generate_candidates st (str_lower (lower_table py) w) = {}
   \<Longrightarrow> correct py st w = Inr w"
  by (simp add: correct_def)

theorem correct_no_candidates_witness:
  "str_lower (lower_table example_interp) (str ''Zzxyy'') \<notin> vocabulary example_store
   \<and> generate_candidates example_store (str_lower (lower_table example_interp) (str ''Zzxyy'')) = {}
   \<and> correct example_interp example_store (str ''Zzxyy'') = Inr (str ''Zzxyy'')"
proof -
  have 1: "str_lower (lower_table example_interp) (str ''Zzxyy'') \<notin> vocabulary example_store"
    unfolding example_lower by (simp add: example_store_def str_def)
  have 2: "generate_candidates example_store
      (str_lower (lower_table example_interp) (str ''Zzxyy'')) = {}"
    unfolding example_lower by (rule example_no_candidates)
  show ?thesis using 1 2 correct_no_candidates [OF 1 2] by simp
qed




section \<open>The channel model\<close>

text \<open>
  In the three theorems of this section \<open>log_div a b\<close> is the value of
  \<^verbatim>\<open>math.log(a / b)\<close>; by \<open>log_div_small\<close> it is \<open>Fin (ln (a / b))\<close> when \<open>a\<close>
  and \<open>b\<close> are positive and at most \<open>2 ^ 1001\<close>.
\<close>

text \<open>
  Claim C2. For a typo and a candidate of equal length, with \<open>T\<close> and \<open>C\<close> the two
  strings after the boundary marker is put in front: if they differ at exactly one
  position \<open>i\<close>, \<^verbatim>\<open>_log_channel_prob\<close> returns the logarithm of
  (substitution count of \<open>(C[i], T[i])\<close> + 1) / (unigram count of \<open>C[i]\<close> + total unigram
  count); if they differ at exactly the two adjacent positions \<open>i\<close> and \<open>i + 1\<close> and the
  characters there are swapped, it returns the logarithm of 1 / total word count; for any
  other pattern it returns negative infinity and does not raise.
\<close>

theorem channel_equal_length_cases:
  assumes "length typo = length cand"
  shows "let T = str ''#'' @ typo;
             C = str ''#'' @ cand;
             D = diff_positions T C;
             r = log_channel_prob st typo cand
         in (D = {i} \<longrightarrow>
               r = log_div (dict_get (sub_counts st) ([C ! i], [T ! i]) 0 + 1)
                     (dict_get (unigram_counts st) [C ! i] 0 + total_unigram_count st))
          \<and> (D = {i, Suc i} \<and> T ! i = C ! Suc i \<and> T ! Suc i = C ! i \<longrightarrow>
               r = log_div 1 (total_word_count st))
          \<and> ((\<nexists>j. D = {j})
              \<and> (\<nexists>j. D = {j, Suc j} \<and> T ! j = C ! Suc j \<and> T ! Suc j = C ! j) \<longrightarrow>
               r = Inr NegInf)"
  unfolding Let_def channel_equal_length [OF assms] str_hash append_Cons append_Nil
  using substitution_single substitution_swap substitution_other
  by (intro conjI impI) (blast+)

theorem channel_equal_length_cases_witness:
  "length (str ''peece'') = length (str ''peace'')
   \<and> log_channel_prob example_store (str ''peece'') (str ''peace'') = Inr (Fin (ln (6 / 200)))
   \<and> log_channel_prob example_store (str ''paece'') (str ''peace'') = Inr (Fin (ln (1 / 1050)))
   \<and> log_channel_prob example_store (str ''peace'') (str ''peace'') = Inr NegInf"
proof -
  have 1: "length (str ''peece'') = length (str ''peace'')" by (simp add: str_def)
  have 2: "length (str ''paece'') = length (str ''peace'')" by (simp add: str_def)
  have 3: "length (str ''peace'') = length (str ''peace'')" by simp
  have a: "log_channel_prob example_store (str ''peece'') (str ''peace'') = Inr (Fin (ln (6 / 200)))"
    using channel_equal_length_cases [OF 1, where st = example_store and i = 3] example_diffs(1)
    by (simp add: Let_def example_store_def dict_get_def log_div_def str_def)
  have b: "log_channel_prob example_store (str ''paece'') (str ''peace'') = Inr (Fin (ln (1 / 1050)))"
    using channel_equal_length_cases [OF 2, where st = example_store and i = 2] example_diffs(2)
    by (simp add: Let_def example_store_def dict_get_def log_div_def str_def)
  have c: "log_channel_prob example_store (str ''peace'') (str ''peace'') = Inr NegInf"
    using channel_equal_length_cases [OF 3, where st = example_store and i = 0] example_diffs(3)
    by (simp add: Let_def str_def)
  show ?thesis using 1 a b c by simp
qed

text \<open>
  Claim C3. For a typo shorter than the candidate, with \<open>i\<close> the first index at which
  the two strings diverge after the boundary marker is put in front, \<open>prefix\<close> the
  candidate's character before \<open>i\<close> and \<open>deleted\<close> its character at \<open>i\<close>:
  \<^verbatim>\<open>_log_channel_prob\<close> returns the logarithm of (deletion count of
  \<open>(prefix, deleted)\<close> + 1) / (context count + total bigram count), where the context
  count is the bigram count of the window when the window has two characters and the
  unigram count of \<open>prefix\<close> otherwise. The window is always the two characters
  \<open>prefix\<close>, \<open>deleted\<close>.
\<close>

theorem channel_deletion_formula:
  assumes "length typo < length cand"
  shows "let C = str ''#'' @ cand;
             i = first_divergence (str ''#'' @ typo) C;
             prefix = C ! (i - 1);
             deleted = C ! i;
             del_count = dict_get (del_counts st) ([prefix], [deleted]) 0;
             window = slice C (int i - 1) (int i + 1);
             context_count =
               (if length window = 2 then dict_get (bigram_counts st) window 0
                else dict_get (unigram_counts st) [prefix] 0)
         in 0 < i \<and> i < length C \<and> window = [prefix, deleted]
            \<and> log_channel_prob st typo cand =
                log_div (del_count + 1) (context_count + total_bigram_count st)"
proof -
  let ?C = "35 # cand"
  let ?k = "first_divergence typo cand"
  have k: "Suc ?k < length ?C"
    using first_divergence_le [of typo cand] assms by simp
  have s: "slice ?C (int (Suc ?k) - 1) (int (Suc ?k) + 1) = [?C ! ?k, ?C ! Suc ?k]"
    using slice_window [of "Suc ?k" ?C] k by simp
  show ?thesis
    using channel_deletion [OF assms, of st] k s by (simp add: Let_def str_hash)
qed

theorem channel_deletion_formula_witness:
  "length (str ''speling'') < length (str ''spelling'')
   \<and> log_channel_prob example_store (str ''speling'') (str ''spelling'') = Inr (Fin (ln (3 / 13)))"
proof -
  have 1: "length (str ''speling'') < length (str ''spelling'')" by (simp add: str_def)
  show ?thesis
    using channel_deletion_formula [OF 1, of example_store]
    by (simp add: Let_def example_store_def dict_get_def log_div_def str_def)
qed

text \<open>
  Claim C4. For a typo longer than the candidate, with \<open>i\<close> the first index at which the
  two strings diverge after the boundary marker is put in front, \<open>prefix\<close> the candidate's
  character before \<open>i\<close> and \<open>added\<close> the typo's character at \<open>i\<close>:
  \<^verbatim>\<open>_log_channel_prob\<close> returns the logarithm of (insertion count of
  \<open>(prefix, added)\<close> + 1) / (context count + total unigram count), where the context count
  is the unigram count of \<open>prefix\<close>, and the total word count when \<open>prefix\<close> is the
  boundary marker.
\<close>

theorem channel_insertion_formula:
  assumes "length cand < length typo"
  shows "let T = str ''#'' @ typo;
             C = str ''#'' @ cand;
             i = first_divergence T C;
             prefix = C ! (i - 1);
             added = T ! i;
             add_count = dict_get (add_counts st) ([prefix], [added]) 0;
             context_count =
               (if [prefix] = str ''#'' then total_word_count st
                else dict_get (unigram_counts st) [prefix] 0)
         in 0 < i \<and> i < length T \<and> i \<le> length C
            \<and> log_channel_prob st typo cand =
                log_div (add_count + 1) (context_count + total_unigram_count st)"
proof -
  let ?k = "first_divergence typo cand"
  have k: "Suc ?k < length (35 # typo)" "Suc ?k \<le> length (35 # cand)"
    using first_divergence_le [of typo cand] assms by simp_all
  show ?thesis
    using channel_insertion [OF assms, of st] k by (simp add: Let_def str_hash)
qed

theorem channel_insertion_formula_witness:
  "length (str ''peace'') < length (str ''xpeace'')
   \<and> log_channel_prob example_store (str ''xpeace'') (str ''peace'') = Inr (Fin (ln (2 / 1190)))
   \<and> length (str ''peace'') < length (str ''peaace'')
   \<and> log_channel_prob example_store (str ''peaace'') (str ''peace'') = Inr (Fin (ln (1 / 200)))"
proof -
  have 1: "length (str ''peace'') < length (str ''xpeace'')" by (simp add: str_def)
  have 2: "length (str ''peace'') < length (str ''peaace'')" by (simp add: str_def)
  show ?thesis
    using channel_insertion_formula [OF 1, of example_store]
      channel_insertion_formula [OF 2, of example_store]
    by (simp add: Let_def example_store_def dict_get_def log_div_def str_def)
qed

section \<open>The corrector returns\<close>

text \<open>
  Claim C7 says that \<^verbatim>\<open>correct\<close> never raises on a corrector whose totals are
  positive. It raises on the two one-word stores, whose totals are positive: the negative
  count makes a quotient of 0, on which \<^verbatim>\<open>math.log\<close> raises \<^verbatim>\<open>ValueError\<close>, and the
  count of \<open>2 ^ 1100\<close> makes a quotient beyond the doubles, on which the division raises
  \<^verbatim>\<open>OverflowError\<close>.
\<close>

theorem correct_raises_on_positive_totals:
  "0 < total_word_count negative_store \<and> 0 < total_unigram_count negative_store
   \<and> 0 < total_bigram_count negative_store
   \<and> correct one_word_interp negative_store (str ''ac'') = Inl ValueError
   \<and> 0 < total_word_count huge_store \<and> 0 < total_unigram_count huge_store
   \<and> 0 < total_bigram_count huge_store \<and> nonneg_counts huge_store
   \<and> correct one_word_interp huge_store (str ''ac'') = Inl OverflowError"
proof -
  have t: "0 < total_word_count negative_store \<and> 0 < total_unigram_count negative_store
      \<and> 0 < total_bigram_count negative_store \<and> 0 < total_word_count huge_store
      \<and> 0 < total_unigram_count huge_store \<and> 0 < total_bigram_count huge_store"
    by (simp add: negative_store_def huge_store_def)
  have n: "nonneg_counts huge_store"
    by (simp add: nonneg_counts_def negative_store_def huge_store_def dict_get_def)
  have v: "str ''ac'' \<notin> vocabulary negative_store" "str ''ac'' \<notin> vocabulary huge_store"
    by (simp_all add: negative_store_def huge_store_def str_def)
  have o: "set_order one_word_interp S = [str ''ab'']" for S
    by (simp add: one_word_interp_def)
  have a: "correct one_word_interp negative_store (str ''ac'') = Inl ValueError"
    unfolding correct_def Let_def one_word_lower example_candidate o
    using v(1) by (simp add: one_word_prior negative_channel)
  have b: "correct one_word_interp huge_store (str ''ac'') = Inl OverflowError"
    unfolding correct_def Let_def one_word_lower huge_candidate o
    using v(2) by (simp add: one_word_prior huge_channel)
  show ?thesis using t n a b by simp
qed

text \<open>
  Claim C7, amended. For every input string, \<^verbatim>\<open>correct\<close> returns a string and raises
  no exception, on a store whose counts are non-negative, whose totals (word count,
  unigram count, bigram count) are positive, and whose counts, totals and vocabulary size
  are below \<open>2 ^ 1000\<close>; for every iteration order of the candidates and whatever
  Unicode's lower-case tables are.
\<close>

theorem correct_never_raises:
  assumes "nonneg_counts st" "small_counts st" "0 < total_word_count st"
    "0 < total_unigram_count st" "0 < total_bigram_count st"
  shows "\<exists>s. correct py st w = Inr s"
proof -
  let ?w = "str_lower (lower_table py) w"
  obtain scored where
    s: "score_candidates st ?w (set_order py (generate_candidates st ?w)) = Inr scored"
    using score_returns [OF assms] by blast
  show ?thesis
    unfolding correct_def Let_def s by (simp split: list.splits)
qed

theorem correct_never_raises_witness:
  "nonneg_counts example_store \<and> small_counts example_store
   \<and> 0 < total_word_count example_store
   \<and> 0 < total_unigram_count example_store \<and> 0 < total_bigram_count example_store
   \<and> (\<exists>s. correct example_interp example_store (str ''Speling'') = Inr s)"
proof -
  have 1: "nonneg_counts example_store"
    by (simp add: nonneg_counts_def example_store_def dict_get_def)
  have c: "card (vocabulary example_store) \<le> 3"
    by (simp add: example_store_def card_insert_if)
  have 2: "small_counts example_store"
    using c by (simp add: small_counts_def example_store_def dict_get_def)
  have 3: "0 < total_word_count example_store" by (simp add: example_store_def)
  have 4: "0 < total_unigram_count example_store" by (simp add: example_store_def)
  have 5: "0 < total_bigram_count example_store" by (simp add: example_store_def)
  show ?thesis
    using 1 2 3 4 5
      correct_never_raises [OF 1 2 3 4 5, of example_interp "str ''Speling''"]
    by simp
qed

section \<open>Construction with an unreadable source\<close>




end
